theory Spec2Isabelle
  imports Main
begin

section \<open>Python text\<close>

text \<open>
  A Python \<^verbatim>\<open>str\<close> is a sequence of Unicode code points, and \<^verbatim>\<open>len\<close> counts code
  points. A string is therefore a list of code points (natural numbers); an ASCII literal
  is written \<open>T ''abc''\<close>.
\<close>

type_synonym str = "nat list"

definition T :: "string \<Rightarrow> str" where
  "T s = map of_char s"

text \<open>
  \<^verbatim>\<open>str.isspace\<close> on one character, the test \<^verbatim>\<open>str.strip()\<close> applies: the ASCII
  whitespace U+0009..U+000D, U+001C..U+001F, U+0020 and the Unicode whitespace
  U+0085, U+00A0, U+1680, U+2000..U+200A, U+2028, U+2029, U+202F, U+205F, U+3000.
\<close>

definition isspace :: "nat \<Rightarrow> bool" where
  "isspace c = ((9 \<le> c \<and> c \<le> 13) \<or> (28 \<le> c \<and> c \<le> 32) \<or> c = 133 \<or> c = 160 \<or> c = 5760
     \<or> (8192 \<le> c \<and> c \<le> 8202) \<or> c = 8232 \<or> c = 8233 \<or> c = 8239 \<or> c = 8287 \<or> c = 12288)"

definition lstrip :: "str \<Rightarrow> str" where
  "lstrip s = dropWhile isspace s"

definition rstrip :: "str \<Rightarrow> str" where
  "rstrip s = rev (dropWhile isspace (rev s))"

definition strip :: "str \<Rightarrow> str" where
  "strip s = rstrip (lstrip s)"

text \<open>
  A slice \<^verbatim>\<open>xs[lo:hi]\<close> with integer bounds: a negative bound counts from the end, and
  both bounds are clamped to the range of the list.
\<close>

definition adjust_index :: "nat \<Rightarrow> int \<Rightarrow> nat" where
  "adjust_index n j =
     (if j < 0 then (if j + int n < 0 then 0 else nat (j + int n))
      else if int n \<le> j then n else nat j)"

definition py_slice :: "'a list \<Rightarrow> int \<Rightarrow> int \<Rightarrow> 'a list" where
  "py_slice xs lo hi =
     (let a = adjust_index (length xs) lo; b = adjust_index (length xs) hi
      in take (b - a) (drop a xs))"

text \<open>\<^verbatim>\<open>sep.join(parts)\<close> and \<^verbatim>\<open>s.split(sep)\<close> for a one-character separator.\<close>

fun join :: "str \<Rightarrow> str list \<Rightarrow> str" where
  "join sep [] = []"
| "join sep [x] = x"
| "join sep (x # y # ys) = x @ sep @ join sep (y # ys)"

fun split_on :: "nat \<Rightarrow> str \<Rightarrow> str list" where
  "split_on sep [] = [[]]"
| "split_on sep (c # cs) =
     (if c = sep then [] # split_on sep cs
      else (c # hd (split_on sep cs)) # tl (split_on sep cs))"

section \<open>ingest.py: the chunker\<close>

definition CHUNK_SIZE :: int where
  "CHUNK_SIZE = 800"

definition CHUNK_OVERLAP :: int where
  "CHUNK_OVERLAP = 120"

text \<open>
  The body of \<^verbatim>\<open>chunk_text\<close>: the loop \<^verbatim>\<open>while i < n\<close> with its state, the offset \<open>i\<close>
  and the list \<open>chunks\<close>. The offset grows by \<open>max 1 (size - overlap)\<close> in every round,
  so \<open>n - i\<close> decreases.
\<close>

function chunk_loop :: "str \<Rightarrow> int \<Rightarrow> int \<Rightarrow> int \<Rightarrow> str list \<Rightarrow> str list" where
  "chunk_loop text sz overlap i chunks =
     (if i < int (length text)
      then chunk_loop text sz overlap (i + max 1 (sz - overlap))
             (if strip (py_slice text i (i + sz)) \<noteq> []
              then chunks @ [py_slice text i (i + sz)] else chunks)
      else chunks)"
  by pat_completeness auto
termination
  by (relation "measure (\<lambda>(text, sz, overlap, i, chunks). nat (int (length text) - i))") auto

definition chunk_text :: "str \<Rightarrow> int \<Rightarrow> int \<Rightarrow> str list" where
  "chunk_text text sz overlap = chunk_loop text sz overlap 0 []"

text \<open>
  The same loop with nothing assumed about its termination: the result is \<open>None\<close>
  when the loop runs forever.
\<close>

partial_function (option) chunk_while ::
  "str \<Rightarrow> int \<Rightarrow> int \<Rightarrow> int \<Rightarrow> str list \<Rightarrow> str list option" where
  "chunk_while text sz overlap i chunks =
     (if i < int (length text)
      then chunk_while text sz overlap (i + max 1 (sz - overlap))
             (if strip (py_slice text i (i + sz)) \<noteq> []
              then chunks @ [py_slice text i (i + sz)] else chunks)
      else Some chunks)"

text \<open>
  The rounds of the loop that append a chunk, each with the offset \<open>i\<close> at which its
  chunk starts, in the order of the loop.
\<close>

function chunk_trace :: "str \<Rightarrow> int \<Rightarrow> int \<Rightarrow> int \<Rightarrow> (int \<times> str) list" where
  "chunk_trace text sz overlap i =
     (if i < int (length text)
      then (if strip (py_slice text i (i + sz)) \<noteq> []
            then [(i, py_slice text i (i + sz))] else [])
           @ chunk_trace text sz overlap (i + max 1 (sz - overlap))
      else [])"
  by pat_completeness auto
termination
  by (relation "measure (\<lambda>(text, sz, overlap, i). nat (int (length text) - i))") auto

text \<open>
  The algorithm as the specification words it, on natural-number offsets: start at
  offset 0, take the slice of up to \<open>size\<close> characters, advance by
  \<open>max 1 (size - overlap)\<close>, repeat while the offset is less than the length of the
  text, and keep a slice iff it is non-empty after trimming whitespace.
\<close>

function spec_chunks_from :: "str \<Rightarrow> nat \<Rightarrow> nat \<Rightarrow> nat \<Rightarrow> str list" where
  "spec_chunks_from text sz step off =
     (if off < length text
      then (if strip (take sz (drop off text)) \<noteq> [] then [take sz (drop off text)] else [])
           @ spec_chunks_from text sz step (off + max 1 step)
      else [])"
  by pat_completeness auto
termination
  by (relation "measure (\<lambda>(text, sz, step, off). length text - off)") auto

definition spec_chunks :: "str \<Rightarrow> nat \<Rightarrow> nat \<Rightarrow> str list" where
  "spec_chunks text sz overlap = spec_chunks_from text sz (sz - overlap) 0"

section \<open>Exceptions, the file system and the vector store\<close>

text \<open>
  A raised exception is a value: its class name and the text \<^verbatim>\<open>str(e)\<close>. Every exception
  of the model is an \<^verbatim>\<open>Exception\<close>, the class the handlers of the source catch.
\<close>

datatype py_exception = PyException (exc_class: string) (exc_text: str)

datatype meta_value = MStr str | MInt int

type_synonym metadata = "(str \<times> meta_value) list"

text \<open>
  The answer of \<^verbatim>\<open>collection.query\<close>, a dictionary: a key is absent, holds \<^verbatim>\<open>None\<close>, or
  holds one list per query text.
\<close>

datatype 'a entry = Absent | PyNone | Present 'a

record query_result =
  documents :: "str list list entry"
  metadatas :: "metadata list list entry"

text \<open>
  A Chroma collection, as far as the program uses it. Each method is a parameter: its
  outcome is an exception or a value. \<open>delete_where\<close> is \<^verbatim>\<open>collection.delete(where={})\<close>,
  \<open>add\<close> is \<^verbatim>\<open>collection.add(documents, metadatas, ids)\<close> and \<open>query\<close> is
  \<^verbatim>\<open>collection.query(query_texts, n_results)\<close>.
\<close>

record collection =
  delete_where :: "py_exception option"
  add :: "str list \<Rightarrow> metadata list \<Rightarrow> str list \<Rightarrow> py_exception option"
  query :: "str list \<Rightarrow> int \<Rightarrow> py_exception + query_result"

text \<open>
  A decoded JSON document, and the values \<^verbatim>\<open>answer\<close> can return. A floating-point
  number is kept as its text.
\<close>

datatype py_value =
  PNone | PBool bool | PInt int | PFloat str | PStr str | PList "py_value list"
  | PDict "(str \<times> py_value) list"

record payload =
  model :: str
  prompt :: str
  stream :: bool

text \<open>
  A response of \<^verbatim>\<open>requests\<close>: its status code, its reason phrase, its URL and the
  outcome of \<^verbatim>\<open>r.json()\<close>.
\<close>

record response =
  status_code :: int
  reason :: str
  url :: str
  json :: "py_exception + py_value"

text \<open>The events the program leaves behind, in order: output and calls of services.\<close>

datatype event =
  Print str
  | Delete
  | Add "str list" "metadata list" "str list"
  | Query "str list" int
  | Post str payload int

text \<open>
  The world outside the program. \<open>decode_file\<close> is the content of a file as
  \<^verbatim>\<open>open(path, "r", encoding="utf-8", errors="ignore")\<close> decodes it (its bytes as UTF-8,
  the invalid sequences dropped), before the translation of line endings, or the
  exception of opening or reading. \<open>pdf_pages\<close> is \<^verbatim>\<open>PdfReader(path).pages\<close> with
  \<^verbatim>\<open>extract_text()\<close> of every page (a text or \<^verbatim>\<open>None\<close>), or the exception raised on the
  way. \<open>open_collection\<close> is opening the persistent collection \<^verbatim>\<open>partner_docs\<close>
  (\<^verbatim>\<open>build_collection\<close>, \<^verbatim>\<open>_get_collection\<close>). \<open>getenv\<close> is the environment after
  \<^verbatim>\<open>load_dotenv()\<close>, and \<open>post\<close> is \<^verbatim>\<open>requests.post(url, json=payload, timeout=timeout)\<close>.
\<close>

record env =
  decode_file :: "str \<Rightarrow> py_exception + str"
  pdf_pages :: "str \<Rightarrow> py_exception + str option list"
  open_collection :: "py_exception + collection"
  getenv :: "str \<Rightarrow> str option"
  post :: "str \<Rightarrow> payload \<Rightarrow> int \<Rightarrow> py_exception + response"

section \<open>ingest.py: loading\<close>

text \<open>
  A file opened in text mode with the default \<^verbatim>\<open>newline=None\<close> is read with universal
  newlines: each of the line endings CR LF, CR and LF arrives as one LF.
\<close>

fun universal_newlines :: "str \<Rightarrow> str" where
  "universal_newlines [] = []"
| "universal_newlines [c] = [if c = 13 then 10 else c]"
| "universal_newlines (c # d # cs) =
     (if c = 13
      then (if d = 10 then 10 # universal_newlines cs else 10 # universal_newlines (d # cs))
      else c # universal_newlines (d # cs))"

text \<open>
  \<^verbatim>\<open>open(path, "r", encoding="utf-8", errors="ignore")\<close> followed by \<^verbatim>\<open>f.read()\<close>: the
  decoded content with its line endings translated.
\<close>

definition open_read :: "env \<Rightarrow> str \<Rightarrow> py_exception + str" where
  "open_read w path =
     (case decode_file w path of Inl e \<Rightarrow> Inl e | Inr raw \<Rightarrow> Inr (universal_newlines raw))"

text \<open>
  The last line of \<^verbatim>\<open>read_txt\<close>: delete every carriage return, split at the line feeds,
  \<^verbatim>\<open>strip()\<close> every line and join the lines with line feeds.
\<close>

definition normalize_whitespace :: "str \<Rightarrow> str" where
  "normalize_whitespace txt = join [10] (map strip (split_on 10 (filter (\<lambda>c. c \<noteq> 13) txt)))"

definition read_txt :: "env \<Rightarrow> str \<Rightarrow> py_exception + str" where
  "read_txt w path =
     (case open_read w path of Inl e \<Rightarrow> Inl e | Inr txt \<Rightarrow> Inr (normalize_whitespace txt))"

text \<open>
  The normalisation as the specification words it, on the decoded content of the file:
  unify the line endings (CR LF, CR and LF each end a line, written as one LF) and strip
  the trailing whitespace of every line, nothing else.
\<close>

definition spec_normalize :: "str \<Rightarrow> str" where
  "spec_normalize content = join [10] (map rstrip (split_on 10 (universal_newlines content)))"

definition read_pdf :: "env \<Rightarrow> str \<Rightarrow> py_exception + str" where
  "read_pdf w path =
     (case pdf_pages w path of
        Inl e \<Rightarrow> Inl e
      | Inr pages \<Rightarrow> Inr (join [10] (map (\<lambda>txt. case txt of None \<Rightarrow> [] | Some t \<Rightarrow> t) pages)))"

text \<open>
  \<^verbatim>\<open>os.path\<close> on POSIX. \<open>rfind\<close> is \<^verbatim>\<open>str.rfind\<close> for one character: the last index
  of the character, or \<open>-1\<close>.
\<close>

definition rfind :: "nat \<Rightarrow> str \<Rightarrow> int" where
  "rfind c p =
     (if c \<in> set p then int (length p) - 1 - int (length (takeWhile (\<lambda>x. x \<noteq> c) (rev p)))
      else - 1)"

definition basename :: "str \<Rightarrow> str" where
  "basename p = drop (nat (rfind 47 p + 1)) p"

definition splitext :: "str \<Rightarrow> str \<times> str" where
  "splitext p =
     (let sepIndex = rfind 47 p; dotIndex = rfind 46 p
      in if dotIndex > sepIndex \<and>
            list_ex (\<lambda>c. c \<noteq> 46)
              (take (nat (dotIndex - (sepIndex + 1))) (drop (nat (sepIndex + 1)) p))
         then (take (nat dotIndex) p, drop (nat dotIndex) p)
         else (p, []))"

text \<open>
  \<^verbatim>\<open>str.lower\<close> on the ASCII letters. The source compares the lowered extension
  with \<^verbatim>\<open>".pdf"\<close> only, and no code point outside ASCII lowers to one of the characters of
  \<^verbatim>\<open>".pdf"\<close>, so the comparison sees nothing of the other code points.
\<close>

definition lower :: "str \<Rightarrow> str" where
  "lower s = map (\<lambda>c. if 65 \<le> c \<and> c \<le> 90 then c + 32 else c) s"

text \<open>\<^verbatim>\<open>str(n)\<close> of an integer: its decimal digits, after a minus sign when negative.\<close>

function str_nat :: "nat \<Rightarrow> str" where
  "str_nat n = (if n < 10 then [48 + n] else str_nat (n div 10) @ [48 + n mod 10])"
  by pat_completeness auto
termination
  by (relation "measure (\<lambda>n. n)") auto

definition str_int :: "int \<Rightarrow> str" where
  "str_int i = (if i < 0 then 45 # str_nat (nat (- i)) else str_nat (nat i))"

text \<open>
  \<^verbatim>\<open>raw = read_pdf(fpath) if ext == ".pdf" else read_txt(fpath)\<close> with
  \<^verbatim>\<open>ext = os.path.splitext(fpath)[1].lower()\<close>.
\<close>

definition load :: "env \<Rightarrow> str \<Rightarrow> py_exception + str" where
  "load w fpath =
     (if lower (snd (splitext fpath)) = T ''.pdf'' then read_pdf w fpath else read_txt w fpath)"

section \<open>ingest.py: the index builder\<close>

text \<open>
  The loop over the files of \<^verbatim>\<open>index_files\<close>. Its state is the three lists \<open>texts\<close>,
  \<open>metadatas\<close> and \<open>ids\<close> and the lines printed so far. A file whose reading raises is
  reported and skipped; every chunk of another file is appended with its metadata and
  its id \<^verbatim>\<open>f"{os.path.basename(fpath)}-{j}"\<close>.
\<close>

definition chunk_metadata :: "str \<Rightarrow> nat \<Rightarrow> metadata" where
  "chunk_metadata fpath j =
     [(T ''source'', MStr (basename fpath)), (T ''path'', MStr fpath), (T ''chunk'', MInt (int j))]"

definition chunk_id :: "str \<Rightarrow> nat \<Rightarrow> str" where
  "chunk_id fpath j = basename fpath @ T ''-'' @ str_int (int j)"

fun index_loop ::
  "env \<Rightarrow> str list \<Rightarrow> str list \<times> metadata list \<times> str list \<times> str list \<Rightarrow>
   str list \<times> metadata list \<times> str list \<times> str list" where
  "index_loop w [] acc = acc"
| "index_loop w (fpath # files) (texts, metas, ids, out) =
     (case load w fpath of
        Inl e \<Rightarrow>
          index_loop w files
            (texts, metas, ids, out @ [T ''[skip] '' @ fpath @ T '': '' @ exc_text e])
      | Inr raw \<Rightarrow>
          index_loop w files
            (texts @ map snd (enumerate 0 (chunk_text raw CHUNK_SIZE CHUNK_OVERLAP)),
             metas @ map (\<lambda>(j, ch). chunk_metadata fpath j)
               (enumerate 0 (chunk_text raw CHUNK_SIZE CHUNK_OVERLAP)),
             ids @ map (\<lambda>(j, ch). chunk_id fpath j)
               (enumerate 0 (chunk_text raw CHUNK_SIZE CHUNK_OVERLAP)),
             out))"

definition accumulated_texts :: "env \<Rightarrow> str list \<Rightarrow> str list" where
  "accumulated_texts w files = fst (index_loop w files ([], [], [], []))"

definition accumulated_metadatas :: "env \<Rightarrow> str list \<Rightarrow> metadata list" where
  "accumulated_metadatas w files = fst (snd (index_loop w files ([], [], [], [])))"

definition accumulated_ids :: "env \<Rightarrow> str list \<Rightarrow> str list" where
  "accumulated_ids w files = fst (snd (snd (index_loop w files ([], [], [], []))))"

text \<open>The chunks one file contributes: none when its reading raises.\<close>

definition chunks_of :: "env \<Rightarrow> str \<Rightarrow> str list" where
  "chunks_of w fpath =
     (case load w fpath of Inl e \<Rightarrow> [] | Inr raw \<Rightarrow> chunk_text raw CHUNK_SIZE CHUNK_OVERLAP)"

text \<open>
  \<^verbatim>\<open>index_files\<close>: open the collection, clear it (an exception of the deletion is
  swallowed), run the loop, add everything in one call when there is anything to add,
  and return \<^verbatim>\<open>(len(files), len(texts))\<close>. An exception of opening the collection or of
  the bulk add leaves the function.
\<close>

definition index_files :: "env \<Rightarrow> str list \<Rightarrow> (py_exception + nat \<times> nat) \<times> event list" where
  "index_files w files =
     (case open_collection w of
        Inl e \<Rightarrow> (Inl e, [])
      | Inr coll \<Rightarrow>
          (case index_loop w files ([], [], [], []) of
             (texts, metas, ids, out) \<Rightarrow>
               if texts \<noteq> []
               then (case add coll texts metas ids of
                       Some e \<Rightarrow> (Inl e, Delete # map Print out @ [Add texts metas ids])
                     | None \<Rightarrow>
                         (Inr (length files, length texts),
                          Delete # map Print out @ [Add texts metas ids]))
               else (Inr (length files, length texts), Delete # map Print out)))"

section \<open>rag.py: retrieval\<close>

definition SYSTEM_PROMPT :: str where
  "SYSTEM_PROMPT =
     T ''You are a precise Partner Program assistant.'' @
     T '' Answer ONLY using the provided context excerpts.'' @
     T '' If the answer is not in the context, say: '' @ [39] @
     T ''I don'' @ [39] @ T ''t know based on the current documentation.'' @ [39] @
     T '' Be concise and use bullet points. Include a short '' @ [39] @ T ''Sources'' @ [39] @
     T '' list with file names.''"

text \<open>
  \<^verbatim>\<open>res.get(key, [[]])[0]\<close>: the default \<^verbatim>\<open>[[]]\<close> for an absent key, then the first
  element. Indexing \<^verbatim>\<open>None\<close> raises \<^verbatim>\<open>TypeError\<close>, indexing an empty list raises
  \<^verbatim>\<open>IndexError\<close>.
\<close>

definition first_of :: "'a list list entry \<Rightarrow> py_exception + 'a list" where
  "first_of e =
     (case e of
        Absent \<Rightarrow> Inr []
      | PyNone \<Rightarrow>
          Inl (PyException ''TypeError''
            ([39] @ T ''NoneType'' @ [39] @ T '' object is not subscriptable''))
      | Present [] \<Rightarrow> Inl (PyException ''IndexError'' (T ''list index out of range''))
      | Present (x # xs) \<Rightarrow> Inr x)"

text \<open>
  \<^verbatim>\<open>retrieve\<close>: open the collection, query it for \<open>max 1 k\<close> results and pair the
  documents with their metadata. The second component lists the calls made.
\<close>

definition retrieve ::
  "env \<Rightarrow> str \<Rightarrow> int \<Rightarrow> (py_exception + (str \<times> metadata) list) \<times> event list" where
  "retrieve w q k =
     (case open_collection w of
        Inl e \<Rightarrow> (Inl e, [])
      | Inr coll \<Rightarrow>
          (case query coll [q] (max 1 k) of
             Inl e \<Rightarrow> (Inl e, [Query [q] (max 1 k)])
           | Inr res \<Rightarrow>
               (case first_of (documents res) of
                  Inl e \<Rightarrow> (Inl e, [Query [q] (max 1 k)])
                | Inr docs \<Rightarrow>
                    (case first_of (metadatas res) of
                       Inl e \<Rightarrow> (Inl e, [Query [q] (max 1 k)])
                     | Inr metas \<Rightarrow> (Inr (zip docs metas), [Query [q] (max 1 k)])))))"

section \<open>rag.py: generation\<close>

text \<open>\<^verbatim>\<open>os.getenv(key, default)\<close> and \<^verbatim>\<open>value or default\<close> for an optional text.\<close>

definition getenv_default :: "env \<Rightarrow> str \<Rightarrow> str \<Rightarrow> str" where
  "getenv_default w key d = (case getenv w key of None \<Rightarrow> d | Some v \<Rightarrow> v)"

definition or_else :: "str option \<Rightarrow> str \<Rightarrow> str" where
  "or_else v d = (case v of None \<Rightarrow> d | Some s \<Rightarrow> if s = [] then d else s)"

text \<open>\<^verbatim>\<open>type(v).__name__\<close> of a decoded JSON value.\<close>

definition type_name :: "py_value \<Rightarrow> str" where
  "type_name v =
     (case v of
        PNone \<Rightarrow> T ''NoneType'' | PBool b \<Rightarrow> T ''bool'' | PInt i \<Rightarrow> T ''int''
      | PFloat f \<Rightarrow> T ''float'' | PStr s \<Rightarrow> T ''str'' | PList xs \<Rightarrow> T ''list''
      | PDict kvs \<Rightarrow> T ''dict'')"

text \<open>
  \<^verbatim>\<open>r.json().get("response", "")\<close>: a dictionary answers with the value of the key or
  with the empty text; any other JSON document has no method \<^verbatim>\<open>get\<close>, and the attribute
  access raises \<^verbatim>\<open>AttributeError\<close>.
\<close>

definition get_response :: "py_value \<Rightarrow> py_exception + py_value" where
  "get_response j =
     (case j of
        PDict kvs \<Rightarrow> (case map_of kvs (T ''response'') of None \<Rightarrow> Inr (PStr []) | Some v \<Rightarrow> Inr v)
      | _ \<Rightarrow>
          Inl (PyException ''AttributeError''
            ([39] @ type_name j @ [39] @ T '' object has no attribute '' @ [39] @ T ''get'' @ [39])))"

text \<open>
  \<^verbatim>\<open>Response.raise_for_status()\<close> of the library \<^verbatim>\<open>requests\<close>: an \<^verbatim>\<open>HTTPError\<close> for a
  status from 400 to 499 (a client error) and from 500 to 599 (a server error), nothing
  for any other status, the 1xx and 3xx included.
\<close>

definition raise_for_status :: "response \<Rightarrow> py_exception option" where
  "raise_for_status r =
     (if 400 \<le> status_code r \<and> status_code r < 500
      then Some (PyException ''HTTPError''
        (str_int (status_code r) @ T '' Client Error: '' @ reason r @ T '' for url: '' @ url r))
      else if 500 \<le> status_code r \<and> status_code r < 600
      then Some (PyException ''HTTPError''
        (str_int (status_code r) @ T '' Server Error: '' @ reason r @ T '' for url: '' @ url r))
      else None)"

definition ollama_url :: "env \<Rightarrow> str option \<Rightarrow> str" where
  "ollama_url w host =
     or_else host (getenv_default w (T ''OLLAMA_HOST'') (T ''http://localhost:11434''))
     @ T ''/api/generate''"

definition ollama_payload :: "env \<Rightarrow> str \<Rightarrow> str option \<Rightarrow> payload" where
  "ollama_payload w p m =
     \<lparr>model = or_else m (getenv_default w (T ''OLLAMA_MODEL'') (T ''granite3.3:8b'')),
      prompt = p, stream = False\<rparr>"

text \<open>
  \<^verbatim>\<open>_ollama_generate(prompt, model, host, timeout)\<close>: one POST; an exception of the call,
  of \<^verbatim>\<open>raise_for_status()\<close> or of decoding the answer leaves the function.
\<close>

definition ollama_generate ::
  "env \<Rightarrow> str \<Rightarrow> str option \<Rightarrow> str option \<Rightarrow> int \<Rightarrow> (py_exception + py_value) \<times> event list" where
  "ollama_generate w p m host timeout =
     (case post w (ollama_url w host) (ollama_payload w p m) timeout of
        Inl e \<Rightarrow> (Inl e, [Post (ollama_url w host) (ollama_payload w p m) timeout])
      | Inr r \<Rightarrow>
          (case raise_for_status r of
             Some e \<Rightarrow> (Inl e, [Post (ollama_url w host) (ollama_payload w p m) timeout])
           | None \<Rightarrow>
               (case json r of
                  Inl e \<Rightarrow> (Inl e, [Post (ollama_url w host) (ollama_payload w p m) timeout])
                | Inr j \<Rightarrow>
                    (get_response j,
                     [Post (ollama_url w host) (ollama_payload w p m) timeout]))))"

section \<open>rag.py: the answer\<close>


definition NO_CONTEXT :: str where
  "NO_CONTEXT =
     T ''I couldn'' @ [39] @ T ''t retrieve any context. Please run `python ingest.py` after placing your documents '' @
     T ''under `data/docs/`, then try again.''"

definition LLM_FAILED :: str where
  "LLM_FAILED =
     T ''LLM call failed. Check that Ollama is running and `OLLAMA_HOST`/`OLLAMA_MODEL` are set.''
     @ [10, 10] @ T ''Error: ''"

text \<open>\<^verbatim>\<open>str(v)\<close> of a metadata value, as an f-string formats it.\<close>

definition str_meta :: "meta_value \<Rightarrow> str" where
  "str_meta v = (case v of MStr s \<Rightarrow> s | MInt i \<Rightarrow> str_int i)"

definition context_block :: "str \<times> metadata \<Rightarrow> str" where
  "context_block dm =
     (case dm of (d, m) \<Rightarrow>
        T ''[From '' @
        (case map_of m (T ''source'') of None \<Rightarrow> T ''unknown'' | Some v \<Rightarrow> str_meta v) @
        T '']:'' @ [10] @ d)"

definition full_prompt :: "str \<Rightarrow> (str \<times> metadata) list \<Rightarrow> str" where
  "full_prompt q ctx_pairs =
     SYSTEM_PROMPT @ [10, 10] @
     (T ''Context excerpts:'' @ [10] @
      join ([10, 10] @ T ''---'' @ [10]) (map context_block ctx_pairs) @ [10, 10] @
      T ''Question: '' @ q @ [10, 10] @
      T ''Answer in bullets. Then add a '' @ [39] @ T ''Sources'' @ [39] @
      T '' list with the file names only.'') @
     [10, 10] @ T ''Answer:''"

text \<open>
  \<^verbatim>\<open>answer\<close>: an exception of the retrieval leaves the function; no context gives the
  fixed message without any call of the generation service; otherwise the prompt is
  sent, and an exception of \<^verbatim>\<open>_ollama_generate\<close> is caught and turned into the message
  \<open>LLM_FAILED\<close> followed by \<^verbatim>\<open>str(e)\<close>.
\<close>

definition answer :: "env \<Rightarrow> str \<Rightarrow> int \<Rightarrow> (py_exception + py_value) \<times> event list" where
  "answer w q top_k =
     (case retrieve w q top_k of
        (Inl e, log) \<Rightarrow> (Inl e, log)
      | (Inr ctx_pairs, log) \<Rightarrow>
          if ctx_pairs = [] then (Inr (PStr NO_CONTEXT), log)
          else (case ollama_generate w (full_prompt q ctx_pairs) None None 120 of
                  (Inl e, calls) \<Rightarrow> (Inr (PStr (LLM_FAILED @ exc_text e)), log @ calls)
                | (Inr v, calls) \<Rightarrow> (Inr v, log @ calls)))"

section \<open>Concrete worlds\<close>

text \<open>
  A world given by the content of its files, the answer of the vector store to every
  query and the outcome of every POST. Its collection opens and accepts every deletion
  and every bulk add; there are no PDF pages and no environment variables.
\<close>

definition world ::
  "(str \<Rightarrow> py_exception + str) \<Rightarrow> query_result \<Rightarrow> (py_exception + response) \<Rightarrow> env" where
  "world files res resp =
     \<lparr>decode_file = files, pdf_pages = (\<lambda>p. Inr []),
      open_collection =
        Inr \<lparr>delete_where = None, add = (\<lambda>texts metas ids. None), query = (\<lambda>qs n. Inr res)\<rparr>,
      getenv = (\<lambda>key. None), post = (\<lambda>url body timeout. resp)\<rparr>"

text \<open>A world in which every file has the given content and the store holds nothing.\<close>

definition file_env :: "str \<Rightarrow> env" where
  "file_env content =
     world (\<lambda>p. Inr content) \<lparr>documents = Present [[]], metadatas = Present [[]]\<rparr>
       (Inl (PyException ''ConnectionError'' (T ''connection refused'')))"




section \<open>The chunker: termination\<close>

declare chunk_loop.simps [simp del]
declare chunk_trace.simps [simp del]
declare spec_chunks_from.simps [simp del]

lemma chunk_while_total:
  "chunk_while s sz overlap i chunks = Some (chunk_loop s sz overlap i chunks)"
proof (induction s sz overlap i chunks rule: chunk_loop.induct)
  case (1 s sz overlap i chunks)
  show ?case
  proof (cases "i < int (length s)")
    case True
    then show ?thesis
      using "1.IH" by (subst chunk_while.simps, subst chunk_loop.simps) simp
  next
    case False
    then show ?thesis
      by (subst chunk_while.simps, subst chunk_loop.simps) simp
  qed
qed

lemma chunk_loop_trace:
  "chunk_loop s sz overlap i chunks = chunks @ map snd (chunk_trace s sz overlap i)"
proof (induction s sz overlap i chunks rule: chunk_loop.induct)
  case (1 s sz overlap i chunks)
  show ?case
  proof (cases "i < int (length s)")
    case True
    then show ?thesis
      using "1.IH" by (subst chunk_loop.simps, subst chunk_trace.simps) simp
  next
    case False
    then show ?thesis
      by (subst chunk_loop.simps, subst chunk_trace.simps) simp
  qed
qed

text \<open>
  With \<open>size = 2\<close> and \<open>overlap = 5\<close> the difference is negative and the loop advances
  by 1; with \<open>size = - 2\<close> the end of a slice counts from the end of the text.
\<close>

lemma chunk_text_small_steps:
  "chunk_text [97, 98, 99] 2 5 = [[97, 98], [98, 99], [99]]"
  "chunk_text [97, 98, 99, 100, 101, 102] (- 2) 0 = [[97, 98, 99, 100], [98, 99, 100, 101]]"
  by (simp_all add: chunk_text_def chunk_loop.simps py_slice_def adjust_index_def strip_def
      lstrip_def rstrip_def isspace_def)

text \<open>
  C9. \<^verbatim>\<open>chunk_text\<close> terminates for every text and all integers \<open>size\<close> and \<open>overlap\<close>,
  also when \<open>size - overlap \<le> 0\<close>: the step of the loop is at least 1, and the loop,
  written with no assumption of termination, returns a list of chunks (the one
  \<open>chunk_text\<close> computes).
\<close>

theorem chunk_text_terminates:
  "1 \<le> max 1 (sz - overlap) \<and>
   (\<exists>chunks. chunk_while s sz overlap 0 [] = Some chunks \<and>
     chunks = chunk_text s sz overlap)"
  by (simp add: chunk_while_total chunk_text_def)

section \<open>The chunker against the algorithm of the specification\<close>

lemma py_slice_take_drop:
  assumes "0 \<le> i" "0 < sz"
  shows "py_slice s i (i + sz) = take (nat sz) (drop (nat i) s)"
proof (cases "i < int (length s)")
  case True
  have a: "adjust_index (length s) i = nat i"
    using assms True by (simp add: adjust_index_def)
  have b: "adjust_index (length s) (i + sz) = min (length s) (nat (i + sz))"
    using assms by (auto simp: adjust_index_def)
  show ?thesis
  proof (cases "i + sz \<le> int (length s)")
    case True
    then have "min (length s) (nat (i + sz)) - nat i = nat sz" using assms by linarith
    then show ?thesis by (simp add: py_slice_def a b)
  next
    case False
    then have "min (length s) (nat (i + sz)) - nat i = length s - nat i" using assms by linarith
    moreover have "length (drop (nat i) s) \<le> nat sz" using False assms by simp
    ultimately show ?thesis by (simp add: py_slice_def a b)
  qed
next
  case False
  then have "adjust_index (length s) i = length s"
    using assms by (simp add: adjust_index_def)
  moreover have "length s \<le> nat i" using False assms by linarith
  ultimately show ?thesis by (simp add: py_slice_def)
qed

lemma trace_spec:
  "0 \<le> i \<Longrightarrow> 0 < sz \<Longrightarrow>
   map snd (chunk_trace s sz overlap i) = spec_chunks_from s (nat sz) (nat (sz - overlap)) (nat i)"
proof (induction s sz overlap i rule: chunk_trace.induct)
  case (1 s sz overlap i)
  show ?case
  proof (cases "i < int (length s)")
    case True
    have step: "nat (i + max 1 (sz - overlap)) = nat i + max 1 (nat (sz - overlap))"
      using "1.prems" by linarith
    have lt: "nat i < length s" using True "1.prems" by linarith
    have ih: "map snd (chunk_trace s sz overlap (i + max 1 (sz - overlap))) =
      spec_chunks_from s (nat sz) (nat (sz - overlap)) (nat i + max 1 (nat (sz - overlap)))"
      using "1.IH" [OF True] "1.prems" step by simp
    show ?thesis
      apply (subst chunk_trace.simps)
      apply (subst spec_chunks_from.simps)
      using True lt ih "1.prems" by (simp add: py_slice_take_drop)
  next
    case False
    then have "\<not> nat i < length s" using "1.prems" by linarith
    with False show ?thesis
      by (subst chunk_trace.simps, subst spec_chunks_from.simps) simp
  qed
qed

text \<open>
  C1. For every text and positive integers \<open>size\<close> and \<open>overlap\<close> with
  \<open>overlap < size\<close>, \<^verbatim>\<open>chunk_text\<close> returns exactly the sequence of the reference
  algorithm: offsets \<open>0, step, 2 * step, \<dots>\<close> below the length of the text with
  \<open>step = max 1 (size - overlap)\<close>, the slice of up to \<open>size\<close> characters at each, kept
  iff it is non-empty after trimming whitespace.
\<close>

theorem chunk_text_refines_spec:
  assumes "0 < sz" "0 < overlap" "overlap < sz"
  shows "chunk_text s sz overlap = spec_chunks s (nat sz) (nat overlap)"
proof -
  have "nat (sz - overlap) = nat sz - nat overlap" using assms by linarith
  then show ?thesis
    using trace_spec [of 0 sz s overlap] assms
    by (simp add: chunk_text_def chunk_loop_trace spec_chunks_def)
qed

lemma spec_chunks_hello:
  "spec_chunks [104, 101, 108, 32, 111] 3 (Suc 0) = [[104, 101, 108], [108, 32, 111], [111]]"
  by (simp add: spec_chunks_def spec_chunks_from.simps strip_def lstrip_def rstrip_def
      isspace_def)

theorem chunk_text_refines_spec_witness:
  "(0::int) < 3 \<and> (0::int) < 1 \<and> (1::int) < 3 \<and>
   chunk_text [104, 101, 108, 32, 111] 3 1 = [[104, 101, 108], [108, 32, 111], [111]]"
  using chunk_text_refines_spec [of 3 1 "[104, 101, 108, 32, 111]"]
  by (simp add: spec_chunks_hello)

section \<open>The chunker: offsets, coverage and chunk length\<close>

lemma strip_nonblank:
  assumes "c \<in> set s" "\<not> isspace c"
  shows "strip s \<noteq> []"
proof -
  have "c \<in> set (dropWhile isspace s)"
    using assms by (induction s) auto
  then have "c \<in> set (rev (dropWhile isspace s))" by simp
  then have "dropWhile isspace (rev (dropWhile isspace s)) \<noteq> []"
    using assms(2) by (metis dropWhile_eq_Nil_conv)
  then show ?thesis by (simp add: strip_def lstrip_def rstrip_def)
qed

lemma chunk_trace_lower:
  "(off, c) \<in> set (chunk_trace s sz overlap i) \<Longrightarrow>
   i \<le> off \<and> off < int (length s) \<and> c = py_slice s off (off + sz) \<and> strip c \<noteq> []"
proof (induction s sz overlap i rule: chunk_trace.induct)
  case (1 s sz overlap i)
  show ?case
  proof (cases "i < int (length s)")
    case True
    from "1.prems" True
    have "(off, c) = (i, py_slice s i (i + sz)) \<and> strip (py_slice s i (i + sz)) \<noteq> [] \<or>
          (off, c) \<in> set (chunk_trace s sz overlap (i + max 1 (sz - overlap)))"
      by (subst (asm) chunk_trace.simps) (auto split: if_splits)
    then show ?thesis
    proof
      assume "(off, c) = (i, py_slice s i (i + sz)) \<and> strip (py_slice s i (i + sz)) \<noteq> []"
      with True show ?thesis by simp
    next
      assume "(off, c) \<in> set (chunk_trace s sz overlap (i + max 1 (sz - overlap)))"
      from "1.IH" [OF True this]
      have *: "i + max 1 (sz - overlap) \<le> off \<and> off < int (length s) \<and>
               c = py_slice s off (off + sz) \<and> strip c \<noteq> []" by blast
      then have "i \<le> off" by linarith
      with * show ?thesis by blast
    qed
  next
    case False
    with "1.prems" show ?thesis by (subst (asm) chunk_trace.simps) simp
  qed
qed

lemma chunk_trace_sorted:
  "sorted_wrt (<) (map fst (chunk_trace s sz overlap i))"
proof (induction s sz overlap i rule: chunk_trace.induct)
  case (1 s sz overlap i)
  show ?case
  proof (cases "i < int (length s)")
    case True
    have later: "\<forall>x \<in> set (chunk_trace s sz overlap (i + max 1 (sz - overlap))). i < fst x"
    proof
      fix x assume "x \<in> set (chunk_trace s sz overlap (i + max 1 (sz - overlap)))"
      then have "i + max 1 (sz - overlap) \<le> fst x"
        using chunk_trace_lower [of "fst x" "snd x"] by simp
      then show "i < fst x" by simp
    qed
    show ?thesis
      using True "1.IH" [OF True] later
      by (subst chunk_trace.simps) (simp add: sorted_wrt_append)
  next
    case False
    then show ?thesis by (subst chunk_trace.simps) simp
  qed
qed

lemma chunk_trace_cover:
  "0 < sz \<Longrightarrow> 0 \<le> overlap \<Longrightarrow> overlap < sz \<Longrightarrow>
   0 \<le> i \<Longrightarrow> nat i \<le> p \<Longrightarrow> p < length s \<Longrightarrow> \<not> isspace (s ! p) \<Longrightarrow>
    \<exists>(off, c) \<in> set (chunk_trace s sz overlap i).
       off \<le> int p \<and> int p < off + int (length c) \<and> c ! (p - nat off) = s ! p"
proof (induction s sz overlap i rule: chunk_trace.induct)
  case (1 s sz overlap i)
  have lt: "i < int (length s)" using "1.prems" by linarith
  let ?c = "py_slice s i (i + sz)"
  let ?next = "chunk_trace s sz overlap (i + max 1 (sz - overlap))"
  have unfold: "chunk_trace s sz overlap i =
      (if strip ?c \<noteq> [] then [(i, ?c)] else []) @ ?next"
    using lt by (subst chunk_trace.simps) simp
  show ?case
  proof (cases "int p < i + max 1 (sz - overlap)")
    case True
    have c: "?c = take (nat sz) (drop (nat i) s)"
      using "1.prems" by (simp add: py_slice_take_drop)
    have rel: "p - nat i < nat sz" using True "1.prems" by linarith
    have len: "p - nat i < length ?c" using rel "1.prems" by (simp add: c)
    have nth: "?c ! (p - nat i) = s ! p"
      using rel "1.prems" by (simp add: c)
    have "s ! p \<in> set ?c" using len nth by (metis nth_mem)
    then have "strip ?c \<noteq> []" using "1.prems" strip_nonblank by blast
    then have "(i, ?c) \<in> set (chunk_trace s sz overlap i)" by (simp add: unfold)
    moreover have "i \<le> int p \<and> int p < i + int (length ?c)"
      using len "1.prems" by linarith
    ultimately show ?thesis using nth by blast
  next
    case False
    then have "0 \<le> i + max 1 (sz - overlap)" "nat (i + max 1 (sz - overlap)) \<le> p"
      using "1.prems" by linarith+
    from "1.IH" [OF lt "1.prems"(1-3) this "1.prems"(6,7)]
    obtain off c where "(off, c) \<in> set ?next"
      "off \<le> int p \<and> int p < off + int (length c) \<and> c ! (p - nat off) = s ! p"
      by blast
    then show ?thesis by (auto simp: unfold)
  qed
qed

lemma chunk_trace_length:
  "(off, c) \<in> set (chunk_trace s sz overlap i) \<Longrightarrow> 0 \<le> i \<Longrightarrow> 0 < sz \<Longrightarrow> int (length c) \<le> sz"
  using chunk_trace_lower [of off c s sz overlap i]
  by (simp add: py_slice_take_drop)

lemma chunk_trace_example:
  "chunk_trace [97, 98, 32, 32, 32, 32, 99] 3 1 0 =
     [(0, [97, 98, 32]), (4, [32, 32, 99]), (6, [99])]"
  by (simp add: chunk_trace.simps py_slice_def adjust_index_def strip_def lstrip_def rstrip_def
      isspace_def)

text \<open>
  C2. For every text and positive integers \<open>size\<close> and \<open>overlap\<close> with
  \<open>overlap < size\<close>: the returned chunks are the second components of the trace of the
  loop, whose first components are the offsets at which the chunks start in the text;
  these offsets are strictly increasing; every non-whitespace character of the text (at
  any position \<open>p\<close>) lies in a returned chunk, at position \<open>p - off\<close> of the chunk that
  starts at \<open>off\<close>; and no returned chunk is longer than \<open>size\<close>.
\<close>

theorem chunk_text_offsets_cover_bound:
  assumes "0 < sz" "0 < overlap" "overlap < sz"
  shows "map snd (chunk_trace s sz overlap 0) = chunk_text s sz overlap \<and>
    (\<forall>(off, c) \<in> set (chunk_trace s sz overlap 0).
       0 \<le> off \<and> off < int (length s) \<and> c = py_slice s off (off + sz)) \<and>
    sorted_wrt (<) (map fst (chunk_trace s sz overlap 0)) \<and>
    (\<forall>p < length s. \<not> isspace (s ! p) \<longrightarrow>
       (\<exists>(off, c) \<in> set (chunk_trace s sz overlap 0).
          off \<le> int p \<and> int p < off + int (length c) \<and> c ! (p - nat off) = s ! p \<and>
          c \<in> set (chunk_text s sz overlap))) \<and>
    (\<forall>c \<in> set (chunk_text s sz overlap). int (length c) \<le> sz)"
proof -
  have chunks: "map snd (chunk_trace s sz overlap 0) = chunk_text s sz overlap"
    by (simp add: chunk_text_def chunk_loop_trace)
  have starts: "\<forall>(off, c) \<in> set (chunk_trace s sz overlap 0).
       0 \<le> off \<and> off < int (length s) \<and> c = py_slice s off (off + sz)"
    using chunk_trace_lower [of _ _ s sz overlap 0] by blast
  have cover: "\<forall>p < length s. \<not> isspace (s ! p) \<longrightarrow>
       (\<exists>(off, c) \<in> set (chunk_trace s sz overlap 0).
          off \<le> int p \<and> int p < off + int (length c) \<and> c ! (p - nat off) = s ! p \<and>
          c \<in> set (chunk_text s sz overlap))"
  proof (intro allI impI)
    fix p assume p: "p < length s" "\<not> isspace (s ! p)"
    from chunk_trace_cover [of sz overlap 0 p s] assms p
    obtain off c where oc: "(off, c) \<in> set (chunk_trace s sz overlap 0)"
      "off \<le> int p \<and> int p < off + int (length c) \<and> c ! (p - nat off) = s ! p"
      by auto
    from oc(1) have "c \<in> set (map snd (chunk_trace s sz overlap 0))" by force
    then have "c \<in> set (chunk_text s sz overlap)" by (simp only: chunks)
    with oc show "\<exists>(off, c) \<in> set (chunk_trace s sz overlap 0).
          off \<le> int p \<and> int p < off + int (length c) \<and> c ! (p - nat off) = s ! p \<and>
          c \<in> set (chunk_text s sz overlap)" by blast
  qed
  have bound: "\<forall>c \<in> set (chunk_text s sz overlap). int (length c) \<le> sz"
  proof
    fix c assume "c \<in> set (chunk_text s sz overlap)"
    then have "c \<in> set (map snd (chunk_trace s sz overlap 0))" by (simp only: chunks)
    then obtain off where "(off, c) \<in> set (chunk_trace s sz overlap 0)" by auto
    then show "int (length c) \<le> sz"
      using chunk_trace_length [of off c s sz overlap 0] assms by simp
  qed
  from chunks starts chunk_trace_sorted [of s sz overlap 0] cover bound
  show ?thesis by blast
qed

theorem chunk_text_offsets_cover_bound_witness:
  "(0::int) < 3 \<and> (0::int) < 1 \<and> (1::int) < 3 \<and>
   chunk_text [97, 98, 32, 32, 32, 32, 99] 3 1 = [[97, 98, 32], [32, 32, 99], [99]] \<and>
   chunk_trace [97, 98, 32, 32, 32, 32, 99] 3 1 0 =
     [(0, [97, 98, 32]), (4, [32, 32, 99]), (6, [99])] \<and>
   sorted_wrt (<) (map fst (chunk_trace [97, 98, 32, 32, 32, 32, 99] 3 1 0)) \<and>
   (\<exists>(off, c) \<in> set (chunk_trace [97, 98, 32, 32, 32, 32, 99] 3 1 0).
      off \<le> 6 \<and> 6 < off + int (length c) \<and> c ! (6 - nat off) = 99)"
proof -
  have "map snd (chunk_trace [97, 98, 32, 32, 32, 32, 99] 3 1 0) =
      chunk_text [97, 98, 32, 32, 32, 32, 99] 3 1"
    using chunk_text_offsets_cover_bound [of 3 1 "[97, 98, 32, 32, 32, 32, 99]"] by simp
  then have "chunk_text [97, 98, 32, 32, 32, 32, 99] 3 1 = [[97, 98, 32], [32, 32, 99], [99]]"
    by (simp add: chunk_trace_example)
  then show ?thesis by (simp add: chunk_trace_example)
qed

section \<open>The chunker: number of chunks\<close>

lemma chunk_trace_count_le:
  "0 \<le> i \<Longrightarrow>
   int (length (chunk_trace s sz overlap i)) \<le>
     max 0 ((int (length s) - i + max 1 (sz - overlap) - 1) div max 1 (sz - overlap))"
proof (induction s sz overlap i rule: chunk_trace.induct)
  case (1 s sz overlap i)
  define D where "D = max 1 (sz - overlap)"
  have D: "1 \<le> D" by (simp add: D_def)
  show ?case
  proof (cases "i < int (length s)")
    case True
    have rec: "(int (length s) - i + D - 1) div D = 1 + (int (length s) - (i + D) + D - 1) div D"
      using D by (smt (verit) div_add_self2)
    have nonneg: "0 \<le> (int (length s) - (i + D) + D - 1) div D"
      using True D by (simp add: pos_imp_zdiv_nonneg_iff)
    have "int (length (chunk_trace s sz overlap (i + D))) \<le>
        max 0 ((int (length s) - (i + D) + D - 1) div D)"
      using "1.IH" [OF True] "1.prems" D unfolding D_def by simp
    then show ?thesis
      using True rec nonneg unfolding D_def
      by (subst chunk_trace.simps) simp
  next
    case False
    then show ?thesis by (subst chunk_trace.simps) simp
  qed
qed

lemma chunk_trace_count:
  "0 \<le> i \<Longrightarrow>
   (\<forall>k::nat. i + int k * max 1 (sz - overlap) < int (length s) \<longrightarrow>
      strip (py_slice s (i + int k * max 1 (sz - overlap))
                        (i + int k * max 1 (sz - overlap) + sz)) \<noteq> []) \<Longrightarrow>
   int (length (chunk_trace s sz overlap i)) =
     max 0 ((int (length s) - i + max 1 (sz - overlap) - 1) div max 1 (sz - overlap))"
proof (induction s sz overlap i rule: chunk_trace.induct)
  case (1 s sz overlap i)
  define D where "D = max 1 (sz - overlap)"
  have D: "1 \<le> D" by (simp add: D_def)
  note nb = "1.prems"(2) [folded D_def]
  show ?case
  proof (cases "i < int (length s)")
    case True
    have rec: "(int (length s) - i + D - 1) div D = 1 + (int (length s) - (i + D) + D - 1) div D"
      using D by (smt (verit) div_add_self2)
    have nonneg: "0 \<le> (int (length s) - (i + D) + D - 1) div D"
      using True D by (simp add: pos_imp_zdiv_nonneg_iff)
    have here: "strip (py_slice s i (i + sz)) \<noteq> []"
      using nb [rule_format, of 0] True by simp
    have later: "\<forall>k::nat. i + D + int k * D < int (length s) \<longrightarrow>
        strip (py_slice s (i + D + int k * D) (i + D + int k * D + sz)) \<noteq> []"
    proof (intro allI impI)
      fix k :: nat assume "i + D + int k * D < int (length s)"
      then show "strip (py_slice s (i + D + int k * D) (i + D + int k * D + sz)) \<noteq> []"
        using nb [rule_format, of "Suc k"] by (simp add: algebra_simps)
    qed
    have "int (length (chunk_trace s sz overlap (i + D))) =
        max 0 ((int (length s) - (i + D) + D - 1) div D)"
      using "1.IH" [OF True] "1.prems"(1) D later unfolding D_def by simp
    then show ?thesis
      using True rec nonneg here unfolding D_def
      by (subst chunk_trace.simps) simp
  next
    case False
    then have "(int (length s) - i + D - 1) div D \<le> 0"
      using D by (smt (verit) div_nonpos_pos_le0 zdiv_eq_0_iff)
    with False show ?thesis unfolding D_def by (subst chunk_trace.simps) simp
  qed
qed

lemma py_slice_nonblank:
  assumes "0 \<le> i" "i < int (length s)" "0 < sz" "\<forall>c \<in> set s. \<not> isspace c"
  shows "strip (py_slice s i (i + sz)) \<noteq> []"
proof -
  have "take (nat sz) (drop (nat i) s) \<noteq> []" using assms by simp
  then obtain c where c: "c \<in> set (take (nat sz) (drop (nat i) s))"
    by (meson last_in_set)
  then have "c \<in> set s" by (meson in_set_dropD in_set_takeD)
  with c assms show ?thesis
    using strip_nonblank [of c "py_slice s i (i + sz)"] by (simp add: py_slice_take_drop)
qed

lemma nonblank_text_count:
  assumes "0 < sz" "overlap < sz" "\<forall>c \<in> set s. \<not> isspace c"
  shows "int (length (chunk_text s sz overlap)) =
    (int (length s) + (sz - overlap) - 1) div (sz - overlap)"
proof -
  have D: "max 1 (sz - overlap) = sz - overlap" using assms by simp
  have "\<forall>k::nat. 0 + int k * max 1 (sz - overlap) < int (length s) \<longrightarrow>
      strip (py_slice s (0 + int k * max 1 (sz - overlap))
                        (0 + int k * max 1 (sz - overlap) + sz)) \<noteq> []"
    using assms by (simp add: py_slice_nonblank)
  from chunk_trace_count [OF _ this]
  have "int (length (chunk_trace s sz overlap 0)) =
      max 0 ((int (length s) + (sz - overlap) - 1) div (sz - overlap))"
    by (simp add: D)
  moreover have "0 \<le> (int (length s) + (sz - overlap) - 1) div (sz - overlap)"
    using assms by (simp add: pos_imp_zdiv_nonneg_iff)
  ultimately show ?thesis
    by (simp add: chunk_text_def chunk_loop_trace)
qed

lemma a_not_space: "\<forall>c \<in> set (replicate n (97::nat)). \<not> isspace c"
  by (simp add: isspace_def)

text \<open>
  C3 (amended). For \<open>0 < overlap < size\<close>, a text of \<open>n\<close> characters yields at most
  \<open>\<lceil>n / (size - overlap)\<rceil>\<close> chunks, and exactly that many when none of the slices at
  the offsets \<open>0, step, 2 * step, \<dots>\<close> is blank. A text of exactly \<open>size\<close> characters
  then yields at least 2 chunks (exactly 2 with the defaults 800 and 120: the whole text
  and its last \<open>overlap\<close> characters), and a text of exactly \<open>2 * size - overlap\<close>
  characters at least 3 (exactly 3 with the defaults).
\<close>

theorem chunk_text_count:
  assumes "0 < overlap" "overlap < sz"
  shows "int (length (chunk_text s sz overlap)) \<le>
      (int (length s) + (sz - overlap) - 1) div (sz - overlap) \<and>
    ((\<forall>k::nat. int k * (sz - overlap) < int (length s) \<longrightarrow>
        strip (py_slice s (int k * (sz - overlap)) (int k * (sz - overlap) + sz)) \<noteq> []) \<longrightarrow>
     int (length (chunk_text s sz overlap)) =
       (int (length s) + (sz - overlap) - 1) div (sz - overlap) \<and>
     (int (length s) = sz \<longrightarrow> 2 \<le> length (chunk_text s sz overlap)) \<and>
     (int (length s) = 2 * sz - overlap \<longrightarrow> 3 \<le> length (chunk_text s sz overlap)) \<and>
     (sz = CHUNK_SIZE \<and> overlap = CHUNK_OVERLAP \<and> int (length s) = sz \<longrightarrow>
        length (chunk_text s sz overlap) = 2) \<and>
     (sz = CHUNK_SIZE \<and> overlap = CHUNK_OVERLAP \<and> int (length s) = 2 * sz - overlap \<longrightarrow>
        length (chunk_text s sz overlap) = 3))"
proof -
  define D where "D = sz - overlap"
  define n where "n = int (length s)"
  have D: "max 1 (sz - overlap) = D" "1 \<le> D" using assms by (simp_all add: D_def)
  have nonneg: "0 \<le> (n + D - 1) div D"
    using D by (simp add: pos_imp_zdiv_nonneg_iff n_def)
  have len: "int (length (chunk_text s sz overlap)) = int (length (chunk_trace s sz overlap 0))"
    by (simp add: chunk_text_def chunk_loop_trace)
  have le: "int (length (chunk_text s sz overlap)) \<le> (n + D - 1) div D"
    using chunk_trace_count_le [of 0 s sz overlap] nonneg by (simp add: len D n_def)
  have eq: "int (length (chunk_text s sz overlap)) = (n + D - 1) div D"
    if nb: "\<forall>k::nat. int k * D < n \<longrightarrow> strip (py_slice s (int k * D) (int k * D + sz)) \<noteq> []"
  proof -
    have "\<forall>k::nat. 0 + int k * max 1 (sz - overlap) < int (length s) \<longrightarrow>
      strip (py_slice s (0 + int k * max 1 (sz - overlap))
                        (0 + int k * max 1 (sz - overlap) + sz)) \<noteq> []"
      using nb by (simp add: D n_def)
    from chunk_trace_count [OF _ this] nonneg show ?thesis
      by (simp add: len D n_def)
  qed
  have two: "2 \<le> (sz + D - 1) div D"
  proof -
    have "2 * D \<le> sz + D - 1" using assms by (simp add: D_def)
    then have "(2 * D) div D \<le> (sz + D - 1) div D" using D by (intro zdiv_mono1) simp_all
    then show ?thesis using D by simp
  qed
  have three: "3 \<le> (2 * sz - overlap + D - 1) div D"
  proof -
    have "3 * D \<le> 2 * sz - overlap + D - 1" using assms by (simp add: D_def)
    then have "(3 * D) div D \<le> (2 * sz - overlap + D - 1) div D"
      using D by (intro zdiv_mono1) simp_all
    then show ?thesis using D by simp
  qed
  show ?thesis
    unfolding D_def [symmetric] n_def [symmetric]
    using le eq two three
    by (auto simp: CHUNK_SIZE_def CHUNK_OVERLAP_def D_def)
qed

theorem chunk_text_count_witness:
  "(0::int) < 120 \<and> (120::int) < 800 \<and>
   length (chunk_text (replicate 800 97) 800 120) = 2 \<and>
   length (chunk_text (replicate 1480 97) 800 120) = 3"
proof -
  have nb: "\<forall>k::nat. int k * (800 - 120) < int (length (replicate n (97::nat))) \<longrightarrow>
      strip (py_slice (replicate n 97) (int k * (800 - 120)) (int k * (800 - 120) + 800)) \<noteq> []" for n
    using py_slice_nonblank [OF _ _ _ a_not_space] by simp
  have "length (chunk_text (replicate 800 97) 800 120) = 2"
    using chunk_text_count [of 120 800 "replicate 800 97"] nb [of 800]
    by (simp add: CHUNK_SIZE_def CHUNK_OVERLAP_def)
  moreover have "length (chunk_text (replicate 1480 97) 800 120) = 3"
    using chunk_text_count [of 120 800 "replicate 1480 97"] nb [of 1480]
    by (simp add: CHUNK_SIZE_def CHUNK_OVERLAP_def)
  ultimately show ?thesis by simp
qed

text \<open>
  The claim as stated (1 chunk for a text of \<open>size\<close> characters, 2 chunks for one of
  \<open>2 * size - overlap\<close> characters) fails: 3 characters with size 3 and overlap 1 give 2
  chunks, and with the defaults 800 characters do not give 1 chunk and 1480 characters do
  not give 2.
\<close>

theorem chunk_text_one_chunk_counterexample:
  "length [97, 97, 97::nat] = 3 \<and> chunk_text [97, 97, 97] 3 1 = [[97, 97, 97], [97]] \<and>
   int (length (replicate 800 (97::nat))) = CHUNK_SIZE \<and>
   length (chunk_text (replicate 800 97) CHUNK_SIZE CHUNK_OVERLAP) \<noteq> 1 \<and>
   int (length (replicate 1480 (97::nat))) = 2 * CHUNK_SIZE - CHUNK_OVERLAP \<and>
   length (chunk_text (replicate 1480 97) CHUNK_SIZE CHUNK_OVERLAP) \<noteq> 2"
proof -
  have small: "chunk_text [97, 97, 97] 3 1 = [[97, 97, 97], [97]]"
    by (simp add: chunk_text_def chunk_loop.simps py_slice_def adjust_index_def strip_def
        lstrip_def rstrip_def isspace_def)
  have "int (length (chunk_text (replicate 800 97) 800 120)) = 2"
    using nonblank_text_count [OF _ _ a_not_space, of 800 120 800] by simp
  moreover have "int (length (chunk_text (replicate 1480 97) 800 120)) = 3"
    using nonblank_text_count [OF _ _ a_not_space, of 800 120 1480] by simp
  ultimately show ?thesis
    using small by (simp add: CHUNK_SIZE_def CHUNK_OVERLAP_def)
qed


section \<open>Loading: the normalisation of read_txt\<close>

lemma split_on_nonempty: "split_on sep s \<noteq> []"
  by (induction s) auto

lemma split_on_no_sep: "l \<in> set (split_on sep s) \<Longrightarrow> sep \<notin> set l"
proof (induction s arbitrary: l)
  case Nil
  then show ?case by simp
next
  case (Cons c cs)
  show ?case
  proof (cases "c = sep")
    case True
    with Cons show ?thesis by auto
  next
    case False
    obtain h t where ht: "split_on sep cs = h # t"
      using split_on_nonempty [of sep cs] by (cases "split_on sep cs") auto
    with Cons.prems False have "l = c # h \<or> l \<in> set t" by simp
    then show ?thesis
      using Cons.IH [of h] Cons.IH [of l] ht False by auto
  qed
qed

lemma split_on_append_plain:
  "sep \<notin> set x \<Longrightarrow> split_on sep (x @ s) = (x @ hd (split_on sep s)) # tl (split_on sep s)"
  by (induction x) (auto simp: split_on_nonempty)

lemma split_on_join:
  "ls \<noteq> [] \<Longrightarrow> \<forall>l \<in> set ls. sep \<notin> set l \<Longrightarrow> split_on sep (join [sep] ls) = ls"
proof (induction ls)
  case Nil
  then show ?case by simp
next
  case (Cons x xs)
  show ?case
  proof (cases xs)
    case Nil
    then show ?thesis
      using Cons.prems split_on_append_plain [of sep x "[]"] by simp
  next
    case (Cons y ys)
    then have "split_on sep (join [sep] xs) = xs" using Cons.IH Cons.prems by simp
    then show ?thesis
      using Cons Cons.prems split_on_append_plain [of sep x "sep # join [sep] xs"] by simp
  qed
qed

lemma strip_suffix:
  "dropWhile isspace l = strip l @ rev (takeWhile isspace (rev (dropWhile isspace l)))"
proof -
  let ?D = "dropWhile isspace l"
  have "rev (takeWhile isspace (rev ?D) @ dropWhile isspace (rev ?D)) = rev (rev ?D)"
    by (simp only: takeWhile_dropWhile_id)
  then have "rev (dropWhile isspace (rev ?D)) @ rev (takeWhile isspace (rev ?D)) = ?D"
    by (simp only: rev_rev_ident rev_append)
  then show ?thesis
    by (simp add: strip_def lstrip_def rstrip_def)
qed

lemma strip_decompose:
  "l = takeWhile isspace l @ strip l @ rev (takeWhile isspace (rev (dropWhile isspace l)))"
proof -
  have "l = takeWhile isspace l @ dropWhile isspace l" by simp
  also have "dropWhile isspace l =
      strip l @ rev (takeWhile isspace (rev (dropWhile isspace l)))"
    by (rule strip_suffix)
  finally show ?thesis .
qed

lemma strip_ends:
  "strip l = [] \<or> (\<not> isspace (hd (strip l)) \<and> \<not> isspace (last (strip l)))"
proof (cases "strip l = []")
  case True
  then show ?thesis by simp
next
  case False
  let ?D = "dropWhile isspace l"
  have s: "strip l = rev (dropWhile isspace (rev ?D))"
    by (simp add: strip_def lstrip_def rstrip_def)
  have ne: "dropWhile isspace (rev ?D) \<noteq> []" using False s by simp
  have "last (strip l) = hd (dropWhile isspace (rev ?D))"
    using ne by (simp add: s last_rev)
  moreover have "\<not> isspace (hd (dropWhile isspace (rev ?D)))"
    using ne by (rule hd_dropWhile)
  ultimately have last: "\<not> isspace (last (strip l))" by simp
  have "hd (strip l @ rev (takeWhile isspace (rev ?D))) = hd (strip l)"
    using False by (rule hd_append2)
  then have hd: "hd ?D = hd (strip l)"
    by (simp only: strip_suffix [symmetric])
  have "?D \<noteq> []"
  proof
    assume "?D = []"
    then have "strip l = []" by (simp only: s) simp
    with False show False by simp
  qed
  then have "\<not> isspace (hd ?D)" by (rule hd_dropWhile)
  with hd last show ?thesis by simp
qed

lemma strip_subset: "set (strip l) \<subseteq> set l"
proof
  fix c assume "c \<in> set (strip l)"
  then have "c \<in> set (dropWhile isspace (rev (dropWhile isspace l)))"
    by (simp add: strip_def lstrip_def rstrip_def)
  then have "c \<in> set (rev (dropWhile isspace l))" by (rule set_dropWhileD)
  then have "c \<in> set (dropWhile isspace l)" by simp
  then show "c \<in> set l" by (rule set_dropWhileD)
qed

lemma join_set: "c \<in> set (join [sep] ls) \<Longrightarrow> c = sep \<or> (\<exists>l \<in> set ls. c \<in> set l)"
proof (induction ls)
  case Nil
  then show ?case by simp
next
  case (Cons x xs)
  then show ?case by (cases xs) auto
qed

lemma split_on_subset: "l \<in> set (split_on sep s) \<Longrightarrow> set l \<subseteq> set s"
proof (induction s arbitrary: l)
  case Nil
  then show ?case by simp
next
  case (Cons c cs)
  show ?case
  proof (cases "c = sep")
    case True
    with Cons show ?thesis by auto
  next
    case False
    obtain h t where ht: "split_on sep cs = h # t"
      using split_on_nonempty [of sep cs] by (cases "split_on sep cs") auto
    with Cons.prems False have "l = c # h \<or> l \<in> set t" by simp
    then show ?thesis
      using Cons.IH [of h] Cons.IH [of l] ht False by auto
  qed
qed

lemma split_normalize:
  "split_on 10 (normalize_whitespace txt) = map strip (split_on 10 (filter (\<lambda>c. c \<noteq> 13) txt))"
proof -
  let ?ls = "map strip (split_on 10 (filter (\<lambda>c. c \<noteq> 13) txt))"
  have "?ls \<noteq> []" by (simp add: split_on_nonempty)
  moreover have "\<forall>l \<in> set ?ls. 10 \<notin> set l"
  proof
    fix l assume "l \<in> set ?ls"
    then obtain l0 where "l0 \<in> set (split_on 10 (filter (\<lambda>c. c \<noteq> 13) txt))" "l = strip l0"
      by auto
    then show "10 \<notin> set l"
      using split_on_no_sep [of l0 10] strip_subset [of l0] by blast
  qed
  ultimately show ?thesis
    unfolding normalize_whitespace_def by (rule split_on_join)
qed

lemma normalize_no_cr: "13 \<notin> set (normalize_whitespace txt)"
proof
  assume "13 \<in> set (normalize_whitespace txt)"
  then have "\<exists>l \<in> set (map strip (split_on 10 (filter (\<lambda>c. c \<noteq> 13) txt))). 13 \<in> set l"
    unfolding normalize_whitespace_def using join_set [of 13 10] by fastforce
  then obtain l0 where l0: "l0 \<in> set (split_on 10 (filter (\<lambda>c. c \<noteq> 13) txt))"
      "13 \<in> set (strip l0)"
    by auto
  then have "13 \<in> set l0" using strip_subset [of l0] by blast
  then have "13 \<in> set (filter (\<lambda>c. c \<noteq> 13) txt)"
    using split_on_subset [OF l0(1)] by blast
  then show False by simp
qed

lemma universal_newlines_no_cr: "13 \<notin> set (universal_newlines s)"
  by (induction s rule: universal_newlines.induct) auto

lemma universal_newlines_filter:
  "filter (\<lambda>c. c \<noteq> 13) (universal_newlines s) = universal_newlines s"
  using universal_newlines_no_cr [of s] by (simp add: filter_id_conv) metis

lemma universal_newlines_examples:
  "universal_newlines [97, 13, 98] = [97, 10, 98]"
  "universal_newlines [97, 13, 10, 98] = [97, 10, 98]"
  "universal_newlines [97, 10, 13, 13, 10, 98, 13] = [97, 10, 10, 10, 98, 10]"
  by simp_all

text \<open>
  C8 (amended). For every decoded content of a file, \<^verbatim>\<open>read_txt\<close> unifies the line
  endings (CR LF, CR and LF each end a line; the result has LF only and no carriage
  return) and strips the leading as well as the trailing whitespace of every line: the
  result has as many lines as the content, and line \<open>k\<close> of the content is
  \<open>pre @ line' @ suf\<close> with \<open>line'\<close> line \<open>k\<close> of the result, \<open>pre\<close> and \<open>suf\<close> all
  whitespace, and \<open>line'\<close> neither starting nor ending with whitespace.
\<close>

theorem read_txt_strips_lines:
  assumes "decode_file w path = Inr content"
  shows "\<exists>out. read_txt w path = Inr out \<and> 13 \<notin> set out \<and>
    length (split_on 10 out) = length (split_on 10 (universal_newlines content)) \<and>
    (\<forall>k < length (split_on 10 out).
       (\<exists>pre suf. split_on 10 (universal_newlines content) ! k = pre @ split_on 10 out ! k @ suf \<and>
          list_all isspace pre \<and> list_all isspace suf) \<and>
       (split_on 10 out ! k = [] \<or>
        (\<not> isspace (hd (split_on 10 out ! k)) \<and> \<not> isspace (last (split_on 10 out ! k)))))"
proof -
  let ?u = "universal_newlines content"
  let ?ls = "split_on 10 ?u"
  have out: "read_txt w path = Inr (normalize_whitespace ?u)"
    using assms by (simp add: read_txt_def open_read_def)
  have lines: "split_on 10 (normalize_whitespace ?u) = map strip ?ls"
    using split_normalize [of ?u] by (simp only: universal_newlines_filter)
  have each: "(\<exists>pre suf. ?ls ! k = pre @ split_on 10 (normalize_whitespace ?u) ! k @ suf \<and>
          list_all isspace pre \<and> list_all isspace suf) \<and>
       (split_on 10 (normalize_whitespace ?u) ! k = [] \<or>
        (\<not> isspace (hd (split_on 10 (normalize_whitespace ?u) ! k)) \<and>
         \<not> isspace (last (split_on 10 (normalize_whitespace ?u) ! k))))"
    if k: "k < length (split_on 10 (normalize_whitespace ?u))" for k
  proof -
    let ?l = "?ls ! k"
    have nth: "split_on 10 (normalize_whitespace ?u) ! k = strip ?l" using k by (simp add: lines)
    have pre: "list_all isspace (takeWhile isspace ?l)"
      by (simp add: list_all_iff) (meson set_takeWhileD)
    have suf: "list_all isspace (rev (takeWhile isspace (rev (dropWhile isspace ?l))))"
      by (simp add: list_all_iff) (meson set_takeWhileD)
    from strip_decompose [of "?l"] pre suf strip_ends [of "?l"] show ?thesis
      unfolding nth by blast
  qed
  show ?thesis
    using out normalize_no_cr [of "?u"] lines each
    by (intro exI [of _ "normalize_whitespace ?u"]) simp
qed

theorem read_txt_strips_lines_witness:
  "decode_file (file_env [32, 32, 97, 32, 98, 32, 13, 10, 9, 99, 13, 100]) (T ''a.txt'') =
     Inr [32, 32, 97, 32, 98, 32, 13, 10, 9, 99, 13, 100] \<and>
   read_txt (file_env [32, 32, 97, 32, 98, 32, 13, 10, 9, 99, 13, 100]) (T ''a.txt'') =
     Inr [97, 32, 98, 10, 99, 10, 100] \<and>
   (\<exists>out. read_txt (file_env [32, 32, 97, 32, 98, 32, 13, 10, 9, 99, 13, 100]) (T ''a.txt'') =
        Inr out \<and>
      13 \<notin> set out \<and> length (split_on 10 out) = 3)"
proof -
  have r: "decode_file (file_env [32, 32, 97, 32, 98, 32, 13, 10, 9, 99, 13, 100]) (T ''a.txt'') =
     Inr [32, 32, 97, 32, 98, 32, 13, 10, 9, 99, 13, 100]"
    by (simp add: file_env_def world_def)
  have v: "read_txt (file_env [32, 32, 97, 32, 98, 32, 13, 10, 9, 99, 13, 100]) (T ''a.txt'') =
     Inr [97, 32, 98, 10, 99, 10, 100]"
    by (simp add: read_txt_def open_read_def file_env_def world_def normalize_whitespace_def
        strip_def lstrip_def rstrip_def isspace_def)
  from read_txt_strips_lines [OF r] r v show ?thesis by simp
qed

text \<open>
  The claim as stated keeps the leading whitespace of a line. The file content
  \<^verbatim>\<open>"  a"\<close> has no line ending and no trailing whitespace, and \<^verbatim>\<open>read_txt\<close> returns
  \<^verbatim>\<open>"a"\<close>.
\<close>

theorem read_txt_leading_whitespace_counterexample:
  "decode_file (file_env [32, 32, 97]) (T ''a.txt'') = Inr [32, 32, 97] \<and>
   read_txt (file_env [32, 32, 97]) (T ''a.txt'') = Inr [97] \<and>
   spec_normalize [32, 32, 97] = [32, 32, 97] \<and>
   read_txt (file_env [32, 32, 97]) (T ''a.txt'') \<noteq> Inr (spec_normalize [32, 32, 97])"
  by (simp add: read_txt_def open_read_def file_env_def world_def normalize_whitespace_def
      spec_normalize_def strip_def lstrip_def rstrip_def isspace_def)


section \<open>The index builder: counts and ids\<close>

lemma strip_blank: "\<forall>c \<in> set s. isspace c \<Longrightarrow> strip s = []"
proof -
  assume a: "\<forall>c \<in> set s. isspace c"
  then have d: "dropWhile isspace s = []" by (induction s) auto
  show ?thesis unfolding strip_def lstrip_def rstrip_def d by simp
qed

lemma py_slice_subset: "set (py_slice xs lo hi) \<subseteq> set xs"
proof
  fix c assume "c \<in> set (py_slice xs lo hi)"
  then have "c \<in> set (drop (adjust_index (length xs) lo) xs)"
    unfolding py_slice_def Let_def by (rule in_set_takeD)
  then show "c \<in> set xs" by (rule in_set_dropD)
qed

lemma chunk_trace_blank:
  "\<forall>c \<in> set s. isspace c \<Longrightarrow> chunk_trace s sz overlap i = []"
proof (induction s sz overlap i rule: chunk_trace.induct)
  case (1 s sz overlap i)
  have "strip (py_slice s i (i + sz)) = []"
    using "1.prems" py_slice_subset [of s i "i + sz"] by (intro strip_blank) blast
  then show ?case
    using "1.IH" "1.prems" by (subst chunk_trace.simps) simp
qed

lemma chunk_text_blank: "\<forall>c \<in> set s. isspace c \<Longrightarrow> chunk_text s sz overlap = []"
  by (simp add: chunk_text_def chunk_loop_trace chunk_trace_blank)

lemma index_loop_texts:
  "fst (index_loop w files (texts, metas, ids, out)) = texts @ concat (map (chunks_of w) files)"
proof (induction files arbitrary: texts metas ids out)
  case Nil
  then show ?case by simp
next
  case (Cons f files)
  show ?case
  proof (cases "load w f")
    case (Inl e)
    then show ?thesis using Cons.IH by (simp add: chunks_of_def)
  next
    case (Inr raw)
    then show ?thesis using Cons.IH by (simp add: chunks_of_def map_snd_enumerate)
  qed
qed

lemma index_loop_ids:
  "fst (snd (snd (index_loop w files (texts, metas, ids, out)))) =
     ids @ concat (map (\<lambda>f. map (chunk_id f) [0..<length (chunks_of w f)]) files)"
proof (induction files arbitrary: texts metas ids out)
  case Nil
  then show ?case by simp
next
  case (Cons f files)
  have en: "map (\<lambda>(j, ch). chunk_id f j) (enumerate 0 xs) = map (chunk_id f) [0..<length xs]"
    for xs :: "str list"
  proof -
    have g: "map (\<lambda>(j, ch). chunk_id f j) ys = map (chunk_id f) (map fst ys)"
      for ys :: "(nat \<times> str) list"
      by (simp add: comp_def case_prod_unfold)
    show ?thesis unfolding g by simp
  qed
  show ?case
  proof (cases "load w f")
    case (Inl e)
    then show ?thesis using Cons.IH by (simp add: chunks_of_def)
  next
    case (Inr raw)
    then show ?thesis using Cons.IH by (simp add: chunks_of_def en)
  qed
qed

lemma load_txt_example:
  "load (file_env content) (T ''a/faq.txt'') =
     Inr (normalize_whitespace (universal_newlines content))"
  "load (file_env content) (T ''b/faq.txt'') =
     Inr (normalize_whitespace (universal_newlines content))"
  "load (file_env content) (T ''b/guide.txt'') =
     Inr (normalize_whitespace (universal_newlines content))"
  by (simp_all add: load_def splitext_def rfind_def lower_def T_def read_txt_def open_read_def
      file_env_def world_def)

lemma basename_example:
  "basename (T ''a/faq.txt'') = T ''faq.txt''" "basename (T ''b/faq.txt'') = T ''faq.txt''"
  by (simp_all add: basename_def rfind_def T_def)

lemma chunk_text_x: "chunk_text [120] CHUNK_SIZE CHUNK_OVERLAP = [[120]]"
  by (simp add: chunk_text_def chunk_loop.simps CHUNK_SIZE_def CHUNK_OVERLAP_def py_slice_def
      adjust_index_def strip_def lstrip_def rstrip_def isspace_def)

lemma normalize_x: "normalize_whitespace [120] = [120]" "normalize_whitespace [32, 10, 32] = [10]"
  by (simp_all add: normalize_whitespace_def strip_def lstrip_def rstrip_def isspace_def)

lemma index_loop_metas_length:
  "length (fst (snd (index_loop w files (texts, metas, ids, out)))) =
     length metas + length (concat (map (chunks_of w) files))"
proof (induction files arbitrary: texts metas ids out)
  case Nil
  then show ?case by simp
next
  case (Cons f files)
  show ?case
  proof (cases "load w f")
    case (Inl e)
    then show ?thesis using Cons.IH by (simp add: chunks_of_def)
  next
    case (Inr raw)
    then show ?thesis using Cons.IH by (simp add: chunks_of_def)
  qed
qed

lemma index_files_result:
  assumes "open_collection w = Inr coll"
    and "accumulated_texts w files \<noteq> [] \<longrightarrow>
      add coll (accumulated_texts w files) (accumulated_metadatas w files)
        (accumulated_ids w files) = None"
  shows "fst (index_files w files) = Inr (length files, length (accumulated_texts w files))"
proof -
  obtain texts metas ids out where l: "index_loop w files ([], [], [], []) = (texts, metas, ids, out)"
    by (metis prod_cases4)
  have t: "accumulated_texts w files = texts" "accumulated_metadatas w files = metas"
      "accumulated_ids w files = ids"
    by (simp_all add: accumulated_texts_def accumulated_metadatas_def accumulated_ids_def l)
  show ?thesis
    using assms by (simp add: index_files_def l t)
qed

lemma blank_file_example:
  "fst (index_files (file_env [32, 10, 32]) [T ''a/faq.txt'']) = Inr (1, 0)"
proof -
  have b: "chunk_text [10] CHUNK_SIZE CHUNK_OVERLAP = []"
    by (rule chunk_text_blank) (simp add: isspace_def)
  have t: "accumulated_texts (file_env [32, 10, 32]) [T ''a/faq.txt''] = []"
    using index_loop_texts [of "file_env [32, 10, 32]" "[T ''a/faq.txt'']" "[]" "[]" "[]" "[]"]
    by (simp add: accumulated_texts_def chunks_of_def load_txt_example normalize_x b)
  obtain coll where o: "open_collection (file_env [32, 10, 32]) = Inr coll"
    by (simp add: file_env_def world_def)
  from index_files_result [OF o, of "[T ''a/faq.txt'']"] t show ?thesis by simp
qed

text \<open>
  C10. When the collection opens and the store accepts the bulk add (which is called
  only when there is a chunk to add), \<^verbatim>\<open>index_files\<close> returns the length of the list of
  files, every file counted, and the number of accumulated chunks: the sum over the
  files of the chunks each contributes. A file whose reading raises contributes none,
  and neither does a file whose text is empty or all whitespace; so a result
  \<open>(N, 0)\<close> with \<open>N > 0\<close> is possible.
\<close>

theorem index_files_counts:
  assumes "open_collection w = Inr coll"
    and "accumulated_texts w files \<noteq> [] \<longrightarrow>
      add coll (accumulated_texts w files) (accumulated_metadatas w files)
        (accumulated_ids w files) = None"
  shows "fst (index_files w files) = Inr (length files, length (accumulated_texts w files)) \<and>
    accumulated_texts w files = concat (map (chunks_of w) files) \<and>
    length (accumulated_texts w files) = sum_list (map (\<lambda>f. length (chunks_of w f)) files) \<and>
    length (accumulated_metadatas w files) = length (accumulated_texts w files) \<and>
    length (accumulated_ids w files) = length (accumulated_texts w files) \<and>
    (\<forall>f \<in> set files. (\<exists>e. load w f = Inl e) \<longrightarrow> chunks_of w f = []) \<and>
    (\<forall>f \<in> set files. \<forall>raw. load w f = Inr raw \<and> (\<forall>c \<in> set raw. isspace c) \<longrightarrow>
       chunks_of w f = []) \<and>
    (\<exists>w' files'. 0 < length files' \<and> fst (index_files w' files') = Inr (length files', 0))"
proof -
  have texts: "accumulated_texts w files = concat (map (chunks_of w) files)"
    using index_loop_texts [of w files "[]" "[]" "[]" "[]"] by (simp add: accumulated_texts_def)
  have len: "length (accumulated_texts w files) = sum_list (map (\<lambda>f. length (chunks_of w f)) files)"
    by (simp add: texts length_concat comp_def)
  have metas: "length (accumulated_metadatas w files) = length (accumulated_texts w files)"
    using index_loop_metas_length [of w files "[]" "[]" "[]" "[]"]
    by (simp add: accumulated_metadatas_def texts)
  have ids: "length (accumulated_ids w files) = length (accumulated_texts w files)"
    using index_loop_ids [of w files "[]" "[]" "[]" "[]"]
    by (simp add: accumulated_ids_def texts length_concat comp_def)
  have skipped: "\<forall>f \<in> set files. (\<exists>e. load w f = Inl e) \<longrightarrow> chunks_of w f = []"
    by (auto simp: chunks_of_def)
  have blank: "\<forall>f \<in> set files. \<forall>raw. load w f = Inr raw \<and> (\<forall>c \<in> set raw. isspace c) \<longrightarrow>
       chunks_of w f = []"
    by (auto simp: chunks_of_def chunk_text_blank)
  have "0 < length [T ''a/faq.txt''] \<and>
      fst (index_files (file_env [32, 10, 32]) [T ''a/faq.txt'']) = Inr (length [T ''a/faq.txt''], 0)"
    by (simp add: blank_file_example)
  then have possible: "\<exists>w' files'. 0 < length files' \<and>
      fst (index_files w' files') = Inr (length files', 0)"
    by blast
  from index_files_result [OF assms] texts len metas ids skipped blank possible
  show ?thesis by blast
qed

theorem index_files_counts_witness:
  "(\<exists>coll. open_collection (file_env (T ''x'')) = Inr coll) \<and>
   fst (index_files (file_env (T ''x'')) [T ''a/faq.txt'', T ''b/guide.txt'']) = Inr (2, 2) \<and>
   fst (index_files (file_env [32, 10, 32]) [T ''a/faq.txt'']) = Inr (1, 0)"
proof -
  obtain coll where o: "open_collection (file_env (T ''x'')) = Inr coll"
    and a: "\<forall>texts metas ids. add coll texts metas ids = None"
    by (simp add: file_env_def world_def)
  have x: "T ''x'' = [120]" by (simp add: T_def)
  have c: "chunks_of (file_env (T ''x'')) (T ''a/faq.txt'') = [[120]]"
      "chunks_of (file_env (T ''x'')) (T ''b/guide.txt'') = [[120]]"
    by (simp_all add: chunks_of_def load_txt_example x normalize_x chunk_text_x)
  from index_files_counts [OF o, of "[T ''a/faq.txt'', T ''b/guide.txt'']"] a
  have "fst (index_files (file_env (T ''x'')) [T ''a/faq.txt'', T ''b/guide.txt'']) =
      Inr (2, length (accumulated_texts (file_env (T ''x'')) [T ''a/faq.txt'', T ''b/guide.txt'']))"
    and "accumulated_texts (file_env (T ''x'')) [T ''a/faq.txt'', T ''b/guide.txt''] =
      concat (map (chunks_of (file_env (T ''x''))) [T ''a/faq.txt'', T ''b/guide.txt''])"
    by simp_all
  then have "fst (index_files (file_env (T ''x'')) [T ''a/faq.txt'', T ''b/guide.txt'']) = Inr (2, 2)"
    by (simp add: c)
  then show ?thesis using o blank_file_example by simp
qed

text \<open>
  C4. The ids of one bulk add are to be pairwise distinct. The id of a chunk is built
  from the basename of its file and its index in that file, so two files with the same
  basename in different directories (the documents directory is scanned recursively)
  give the same ids: the files \<^verbatim>\<open>a/faq.txt\<close> and \<^verbatim>\<open>b/faq.txt\<close>, each with the content
  \<^verbatim>\<open>x\<close>, both give the id \<^verbatim>\<open>faq.txt-0\<close>.
\<close>

theorem duplicate_basename_ids:
  "accumulated_ids (file_env (T ''x'')) [T ''a/faq.txt'', T ''b/faq.txt''] =
      [T ''faq.txt-0'', T ''faq.txt-0''] \<and>
   \<not> distinct (accumulated_ids (file_env (T ''x'')) [T ''a/faq.txt'', T ''b/faq.txt''])"
proof -
  have x: "T ''x'' = [120]" by (simp add: T_def)
  have id: "chunk_id (T ''a/faq.txt'') 0 = T ''faq.txt-0''"
     "chunk_id (T ''b/faq.txt'') 0 = T ''faq.txt-0''"
    by (simp_all add: chunk_id_def basename_example str_int_def str_nat.simps) (simp_all add: T_def)
  have "accumulated_ids (file_env (T ''x'')) [T ''a/faq.txt'', T ''b/faq.txt''] =
      [T ''faq.txt-0'', T ''faq.txt-0'']"
    by (simp add: accumulated_ids_def load_txt_example x normalize_x chunk_text_x id
        enumerate_eq_zip)
  then show ?thesis by simp
qed


section \<open>Retrieval and answer\<close>

text \<open>
  C7. For every question and every integer \<open>k\<close>, \<^verbatim>\<open>retrieve\<close> makes one query, for
  the question and \<open>max 1 k\<close> results; and when the store answers with no results (the
  lists of documents and of metadata are absent or hold one empty list, as for an empty
  collection), \<^verbatim>\<open>retrieve\<close> returns the empty sequence and raises nothing.
\<close>

theorem retrieve_clamps_k:
  assumes "open_collection w = Inr coll"
  shows "snd (retrieve w q k) = [Query [q] (max 1 k)] \<and> 1 \<le> max 1 k \<and>
    (\<forall>res. query coll [q] (max 1 k) = Inr res \<and>
       (documents res = Absent \<or> documents res = Present [[]]) \<and>
       (metadatas res = Absent \<or> metadatas res = Present [[]]) \<longrightarrow>
       fst (retrieve w q k) = Inr [])"
  using assms
  by (auto simp: retrieve_def first_of_def split: sum.splits entry.splits list.splits)

theorem retrieve_clamps_k_witness:
  "(\<exists>coll. open_collection (file_env []) = Inr coll) \<and>
   retrieve (file_env []) (T ''What does MDF cover?'') 0 =
     (Inr [], [Query [T ''What does MDF cover?''] 1]) \<and>
   retrieve (file_env []) (T ''What does MDF cover?'') (- 3) =
     (Inr [], [Query [T ''What does MDF cover?''] 1]) \<and>
   snd (retrieve (file_env []) (T ''What does MDF cover?'') 7) =
     [Query [T ''What does MDF cover?''] 7]"
proof -
  obtain coll where c: "open_collection (file_env []) = Inr coll"
    by (simp add: file_env_def world_def)
  have "snd (retrieve (file_env []) (T ''What does MDF cover?'') 7) =
     [Query [T ''What does MDF cover?''] 7]"
    using retrieve_clamps_k [OF c, of "T ''What does MDF cover?''" 7] by simp
  moreover have "retrieve (file_env []) (T ''What does MDF cover?'') 0 =
     (Inr [], [Query [T ''What does MDF cover?''] 1])"
    by (simp add: retrieve_def file_env_def world_def first_of_def)
  moreover have "retrieve (file_env []) (T ''What does MDF cover?'') (- 3) =
     (Inr [], [Query [T ''What does MDF cover?''] 1])"
    by (simp add: retrieve_def file_env_def world_def first_of_def)
  ultimately show ?thesis using c by simp
qed

text \<open>
  C6. For every question and \<open>top_k\<close>, when the retrieval returns the empty sequence,
  \<^verbatim>\<open>answer\<close> returns the fixed message that asks to run the ingestion first, and its
  calls are those of the retrieval: the generation service is not called.
\<close>

theorem answer_no_context:
  assumes "fst (retrieve w q top_k) = Inr []"
  shows "fst (answer w q top_k) = Inr (PStr NO_CONTEXT) \<and>
    snd (answer w q top_k) = snd (retrieve w q top_k) \<and>
    (\<forall>url body timeout. Post url body timeout \<notin> set (snd (answer w q top_k)))"
proof -
  obtain log where r: "retrieve w q top_k = (Inr [], log)"
    using assms by (cases "retrieve w q top_k") simp
  have a: "answer w q top_k = (Inr (PStr NO_CONTEXT), log)"
    by (simp add: answer_def r)
  have "\<forall>url body timeout. Post url body timeout \<notin> set (snd (retrieve w q top_k))"
    by (auto simp: retrieve_def split: sum.splits)
  then show ?thesis by (simp add: a r)
qed

theorem answer_no_context_witness:
  "fst (retrieve (file_env []) (T ''What does MDF cover?'') 4) = Inr [] \<and>
   answer (file_env []) (T ''What does MDF cover?'') 4 =
     (Inr (PStr (T ''I couldn'' @ [39] @
        T ''t retrieve any context. Please run `python ingest.py` after placing your documents '' @
        T ''under `data/docs/`, then try again.'')),
      [Query [T ''What does MDF cover?''] 4])"
proof -
  have r: "retrieve (file_env []) (T ''What does MDF cover?'') 4 =
      (Inr [], [Query [T ''What does MDF cover?''] 4])"
    by (simp add: retrieve_def file_env_def world_def first_of_def)
  then have f: "fst (retrieve (file_env []) (T ''What does MDF cover?'') 4) = Inr []" by simp
  from answer_no_context [OF f] r f show ?thesis
    by (simp add: prod_eq_iff NO_CONTEXT_def)
qed











end
